theory Spec2Isabelle
  imports Complex_Main "HOL-Library.AList"
begin

section \<open>Data model (types.ts)\<close>

text \<open>
  Timestamps are UNIX milliseconds. The source stores them in JavaScript numbers; every
  value the functions below compute from them is a sum or difference of integers, so they
  are modelled as \<open>int\<close>.
\<close>

datatype ItemType = Folder | Task

record Category =
  id_cat :: string
  type_cat :: ItemType
  name_cat :: string
  color_cat :: string
  parentId :: "string option"
  order_cat :: int

text \<open>\<open>end_iv = None\<close> is the source's \<open>end: null\<close>: the interval is still open.\<close>

record TimeInterval =
  start :: int
  end_iv :: "int option"

record Session =
  id_sess :: string
  taskId :: string
  intervals :: "TimeInterval list"
  note_sess :: "string option"

section \<open>Day aggregation (screens/analyticsUtils.ts)\<close>

subsection \<open>Dates and the host's time zone\<close>

text \<open>
  A calendar date, which the source writes as a \<open>YYYY-MM-DD\<close> string, is represented by
  its day number (consecutive dates have consecutive numbers). A local time is a number
  of milliseconds counted from the start of date 0, so that local time \<open>l\<close> falls on date
  \<open>l div 86400000\<close> at time of day \<open>l mod 86400000\<close>.

  The host's time zone enters through the two conversions of ECMA-262 that \<open>Date\<close> is
  built on: \<open>LocalTime\<close> takes a timestamp to the local time, and \<open>UTC\<close> takes a local
  time to a timestamp (a local time that a clock change skips or repeats is read with the
  offset in force before the change).
\<close>

record zone =
  LocalTime :: "int \<Rightarrow> int"
  UTC :: "int \<Rightarrow> int"

text \<open>\<^verbatim>\<open>new Date(date + 'T00:00:00').getTime()\<close>: the timestamp of local midnight of a date.\<close>

definition mid :: "zone \<Rightarrow> int \<Rightarrow> int" where
  "mid z d = UTC z (d * 86400000)"

text \<open>\<open>toLocalDate\<close>: the local date of a timestamp.\<close>

definition toLocalDate :: "zone \<Rightarrow> int \<Rightarrow> int" where
  "toLocalDate z ts = LocalTime z ts div 86400000"

text \<open>
  \<^verbatim>\<open>cur.setDate(cur.getDate() + 1)\<close>: the next date at the same local time of day, converted
  back to a timestamp.
\<close>

definition setDate_next :: "zone \<Rightarrow> int \<Rightarrow> int" where
  "setDate_next z ts =
     UTC z ((LocalTime z ts div 86400000 + 1) * 86400000 + LocalTime z ts mod 86400000)"

text \<open>
  \<open>dateRange\<close>: the loop \<^verbatim>\<open>while (cur <= endDate) { dates.push(toLocalDate(cur.getTime())); cur.setDate(cur.getDate() + 1) }\<close>
  on the timestamps of the two \<open>Date\<close> objects. Nothing in the source bounds the loop; it
  ends because the cursor moves forward. The outer \<open>None\<close> stands for a loop that does
  not end.
\<close>

partial_function (option) dateRange_loop :: "zone \<Rightarrow> int \<Rightarrow> int \<Rightarrow> int list \<Rightarrow> int list option" where
  "dateRange_loop z endDate cur dates =
     (if cur \<le> endDate
      then dateRange_loop z endDate (setDate_next z cur) (dates @ [toLocalDate z cur])
      else Some dates)"

declare dateRange_loop.simps [code]

definition dateRange :: "zone \<Rightarrow> int \<Rightarrow> int \<Rightarrow> int list option" where
  "dateRange z dateStart dateEnd = dateRange_loop z (mid z dateEnd) (mid z dateStart) []"

subsection \<open>Plain objects used as dictionaries\<close>

text \<open>
  \<open>byTask\<close> is a plain object (\<open>{}\<close>) indexed by task id. Its own properties are modelled
  as an association list in insertion order; assigning to an own key replaces the value
  in place and assigning to a new key appends an entry, which is what \<open>AList.update\<close>
  does. (JavaScript enumerates keys that look like array indices first; no statement below
  depends on the order of enumeration.)

  A plain object inherits from \<open>Object.prototype\<close>. For a key that names one of its
  members and is not an own property, the read \<open>byTask[k]\<close> gives the inherited member (a
  function, or for \<open>__proto__\<close> the prototype object), which is not nullish, so
  \<open>byTask[k] ?? 0\<close> is that member and adding a number to it gives a string. The
  assignment \<open>byTask[k] = v\<close> then creates an own property holding the string, except for
  \<open>__proto__\<close>, whose setter ignores a value that is neither an object nor null.

  Accordingly a value held at run time where the type says \<open>number\<close> is a number or a
  string. \<open>Str\<close> stands for a string; which string it is (the engine's text for the
  inherited member followed by digits) is not modelled. \<open>+\<close> with a string operand gives
  a string.
\<close>

datatype jsval = Num int | Str

fun js_add :: "jsval \<Rightarrow> jsval \<Rightarrow> jsval" where
  "js_add (Num x) (Num y) = Num (x + y)"
| "js_add (Num x) Str = Str"
| "js_add Str v = Str"

text \<open>The properties of \<open>Object.prototype\<close> (ECMA-262 with Annex B).\<close>

definition proto_members :: "string list" where
  "proto_members =
     [''constructor'', ''hasOwnProperty'', ''isPrototypeOf'', ''propertyIsEnumerable'',
      ''toLocaleString'', ''toString'', ''valueOf'', ''__proto__'',
      ''__defineGetter__'', ''__defineSetter__'', ''__lookupGetter__'', ''__lookupSetter__'']"

definition inherited :: "string \<Rightarrow> bool" where
  "inherited k = (k \<in> set proto_members)"

text \<open>The value of \<^verbatim>\<open>(obj[k] ?? 0) + v\<close>.\<close>

definition plus_entry :: "(string \<times> jsval) list \<Rightarrow> string \<Rightarrow> jsval \<Rightarrow> jsval" where
  "plus_entry obj k v =
     (case map_of obj k of
        Some own \<Rightarrow> js_add own v
      | None \<Rightarrow> if inherited k then Str else js_add (Num 0) v)"

text \<open>The effect of \<^verbatim>\<open>obj[k] = v\<close> for a number or string \<open>v\<close>.\<close>

definition assign :: "(string \<times> jsval) list \<Rightarrow> string \<Rightarrow> jsval \<Rightarrow> (string \<times> jsval) list" where
  "assign obj k v =
     (if k = ''__proto__'' \<and> map_of obj k = None then obj else AList.update k v obj)"

subsection \<open>\<open>aggregateToDays\<close> and \<open>mergeDayDataWithDisplay\<close>\<close>

text \<open>
  \<open>DayData\<close>, with the type of the values it holds as a parameter: \<open>int\<close> where they are
  numbers, as the interface declares, and \<open>jsval\<close> for the objects the two functions
  below build.
\<close>

record 'v DayData =
  date :: int
  totalMs :: 'v
  byTask :: "(string \<times> 'v) list"

definition overlap :: "int \<Rightarrow> int \<Rightarrow> int \<Rightarrow> int \<Rightarrow> int" where
  "overlap a b c d = max 0 (min b d - max a c)"

definition dayBounds :: "zone \<Rightarrow> int \<Rightarrow> int \<times> int" where
  "dayBounds z d = (let s = mid z d; e = s + 24 * 60 * 60 * 1000 in (s, e))"

text \<open>
  The body of the inner loop of \<open>aggregateToDays\<close>, for one interval of one session. The
  running total \<open>totalMs\<close> starts at 0 and only has numbers added to it, so it is kept as
  an \<open>int\<close>.
\<close>

definition add_interval ::
  "int \<Rightarrow> int \<Rightarrow> string \<Rightarrow> TimeInterval \<Rightarrow> (string \<times> jsval) list \<times> int \<Rightarrow> (string \<times> jsval) list \<times> int"
where
  "add_interval dayStart dayEnd tid iv acc =
     (case end_iv iv of
        None \<Rightarrow> acc
      | Some e \<Rightarrow>
          (let ms = overlap (start iv) e dayStart dayEnd in
           if ms \<le> 0 then acc
           else (assign (fst acc) tid (plus_entry (fst acc) tid (Num ms)), snd acc + ms)))"

definition add_session ::
  "int \<Rightarrow> int \<Rightarrow> Session \<Rightarrow> (string \<times> jsval) list \<times> int \<Rightarrow> (string \<times> jsval) list \<times> int"
where
  "add_session dayStart dayEnd s acc = fold (add_interval dayStart dayEnd (taskId s)) (intervals s) acc"

definition aggregate_day :: "zone \<Rightarrow> Session list \<Rightarrow> int \<Rightarrow> jsval DayData" where
  "aggregate_day z sessions d =
     (let (dayStart, dayEnd) = dayBounds z d;
          (bt, tot) = fold (add_session dayStart dayEnd) sessions ([], 0)
      in \<lparr>date = d, totalMs = Num tot, byTask = bt\<rparr>)"

definition aggregateToDays :: "zone \<Rightarrow> Session list \<Rightarrow> int \<Rightarrow> int \<Rightarrow> jsval DayData list option" where
  "aggregateToDays z sessions dateStart dateEnd =
     map_option (map (aggregate_day z sessions)) (dateRange z dateStart dateEnd)"

text \<open>
  What \<open>aggregateToDays\<close> is to be compared with: the part of an interval that falls
  into the window of date \<open>d\<close>, where an open interval has no part; and the result the
  aggregator would give if every open interval were closed at \<open>now\<close> first (closing as
  \<open>closeInterrupted\<close> does it: \<^verbatim>\<open>iv.end === null ? { ...iv, end: now } : iv\<close>).
\<close>

definition day_share :: "zone \<Rightarrow> int \<Rightarrow> TimeInterval \<Rightarrow> int" where
  "day_share z d iv =
     (case end_iv iv of
        None \<Rightarrow> 0
      | Some e \<Rightarrow> overlap (start iv) e (fst (dayBounds z d)) (snd (dayBounds z d)))"




text \<open>
  \<open>mergeDayDataWithDisplay\<close>. The effective map is a JavaScript \<open>Map\<close>, modelled as
  \<open>string \<rightharpoonup> string\<close>. The test \<^verbatim>\<open>if (!displayId) continue\<close> skips an entry whose task has
  no display id, and also one whose display id is the empty string, which is falsy. The
  values read from \<open>day.byTask\<close> are whatever the object holds, so \<open>totalMs += ms\<close> is
  \<open>js_add\<close>.
\<close>

definition merge_entry ::
  "(string \<rightharpoonup> string) \<Rightarrow> string \<times> jsval \<Rightarrow> (string \<times> jsval) list \<times> jsval \<Rightarrow> (string \<times> jsval) list \<times> jsval"
where
  "merge_entry effectiveMap e acc =
     (case effectiveMap (fst e) of
        None \<Rightarrow> acc
      | Some displayId \<Rightarrow>
          if displayId = [] then acc
          else (assign (fst acc) displayId (plus_entry (fst acc) displayId (snd e)),
                js_add (snd acc) (snd e)))"

definition merge_day :: "(string \<rightharpoonup> string) \<Rightarrow> jsval DayData \<Rightarrow> jsval DayData" where
  "merge_day effectiveMap day =
     (let (bt, tot) = fold (merge_entry effectiveMap) (byTask day) ([], Num 0)
      in day\<lparr>totalMs := tot, byTask := bt\<rparr>)"

definition mergeDayDataWithDisplay ::
  "jsval DayData list \<Rightarrow> (string \<rightharpoonup> string) \<Rightarrow> jsval DayData list"
where
  "mergeDayDataWithDisplay dayData effectiveMap = map (merge_day effectiveMap) dayData"

section \<open>Hierarchy resolver (screens/analyticsUtils.ts)\<close>

text \<open>\<^verbatim>\<open>categories.find((c) => c.id === cur)\<close> followed by \<^verbatim>\<open>cat?.parentId ?? null\<close>.\<close>

definition parent_of :: "Category list \<Rightarrow> string \<Rightarrow> string option" where
  "parent_of categories cur =
     (case List.find (\<lambda>c. id_cat c = cur) categories of
        None \<Rightarrow> None
      | Some cat \<Rightarrow> parentId cat)"

text \<open>
  The \<^verbatim>\<open>while (cur !== null)\<close> loop of \<open>computeEffectiveDisplay\<close>. The source has no
  bound on the number of iterations, so the loop is a partial function: the outer
  \<open>None\<close> means that it does not return. A returned \<open>Some chosen\<close> carries the value of
  the variable \<open>chosen\<close> after the loop (\<open>None\<close> for \<open>null\<close>).
\<close>

partial_function (option) walk ::
  "Category list \<Rightarrow> string set \<Rightarrow> string option \<Rightarrow> string option option"
where
  "walk categories selectedIds cur =
     (case cur of
        None \<Rightarrow> Some None
      | Some c \<Rightarrow>
          if c \<in> selectedIds then Some (Some c)
          else walk categories selectedIds (parent_of categories c))"

declare walk.simps [code]

text \<open>
  The \<^verbatim>\<open>for (const task of tasks)\<close> loop. \<^verbatim>\<open>if (chosen) map.set(task.id, chosen)\<close> tests the
  truthiness of a \<open>string | null\<close>: it fails for \<open>null\<close> and for the empty string.
\<close>

fun assign_tasks ::
  "Category list \<Rightarrow> string set \<Rightarrow> Category list \<Rightarrow> (string \<rightharpoonup> string) \<Rightarrow> (string \<rightharpoonup> string) option"
where
  "assign_tasks categories selectedIds [] m = Some m"
| "assign_tasks categories selectedIds (t # ts) m =
     (case walk categories selectedIds (Some (id_cat t)) of
        None \<Rightarrow> None
      | Some chosen \<Rightarrow>
          assign_tasks categories selectedIds ts
            (case chosen of
               None \<Rightarrow> m
             | Some c \<Rightarrow> if c = [] then m else m(id_cat t \<mapsto> c)))"

definition computeEffectiveDisplay :: "Category list \<Rightarrow> string set \<Rightarrow> (string \<rightharpoonup> string) option" where
  "computeEffectiveDisplay categories selectedIds =
     assign_tasks categories selectedIds (filter (\<lambda>c. type_cat c = Task) categories) Map.empty"

section \<open>Derived statistics (screens/AnalyticsScreen.tsx)\<close>




section \<open>Timer state machine (store/AppContext.tsx)\<close>

datatype TimerStatus = Idle | Running | Paused

record ActiveTimer =
  sessionId :: string
  taskId_timer :: string
  status :: TimerStatus
  intervals_timer :: "TimeInterval list"
  elapsedMs :: int
  intervalStart :: "int option"

text \<open>
  Of \<open>AppState\<close> the timer commands read and write the fields \<open>sessions\<close> and
  \<open>timer\<close>; \<open>timer = None\<close> is the source's \<open>timer: null\<close>, the idle state.
\<close>

record AppState =
  sessions :: "Session list"
  timer :: "ActiveTimer option"

text \<open>The reducer cases \<open>UPSERT_SESSION\<close>, \<open>DELETE_SESSION\<close> and \<open>SET_TIMER\<close>.\<close>

definition upsert_session :: "Session \<Rightarrow> AppState \<Rightarrow> AppState" where
  "upsert_session session st =
     (let exists = list_ex (\<lambda>s. id_sess s = id_sess session) (sessions st) in
      st\<lparr>sessions :=
           (if exists then map (\<lambda>s. if id_sess s = id_sess session then session else s) (sessions st)
            else sessions st @ [session])\<rparr>)"

definition delete_session :: "string \<Rightarrow> AppState \<Rightarrow> AppState" where
  "delete_session i st = st\<lparr>sessions := filter (\<lambda>s. \<not> id_sess s = i) (sessions st)\<rparr>"

definition set_timer :: "ActiveTimer option \<Rightarrow> AppState \<Rightarrow> AppState" where
  "set_timer t st = st\<lparr>timer := t\<rparr>"

text \<open>
  The world a command runs in: the in-memory state, the \<open>sessions\<close> object store of the
  database (keyed by session id; \<open>put\<close> replaces) and whether the next database request
  succeeds. Every command is an \<open>async\<close> function returning \<open>Promise<void>\<close>: the caller
  observes whether the promise resolves or rejects, and nothing else. A rejected
  \<open>await db...\<close> rejects the command before any \<open>dispatch\<close> runs.
  The clock reading \<open>Date.now()\<close> and the id drawn by \<open>genId()\<close> are parameters.
\<close>

datatype outcome = Resolved | Rejected

record World =
  app :: AppState
  db_sessions :: "string \<rightharpoonup> Session"
  db_ok :: bool

definition new_session :: "string \<Rightarrow> string \<Rightarrow> TimeInterval list \<Rightarrow> Session" where
  "new_session i t ivs = \<lparr>id_sess = i, taskId = t, intervals = ivs, note_sess = None\<rparr>"

text \<open>\<open>await db.upsertSession(session); dispatch UPSERT_SESSION; dispatch SET_TIMER\<close>.\<close>

definition save_and_set :: "Session \<Rightarrow> ActiveTimer option \<Rightarrow> World \<Rightarrow> outcome \<times> World" where
  "save_and_set session t w =
     (if db_ok w
      then (Resolved,
            w\<lparr>db_sessions := (db_sessions w)(id_sess session \<mapsto> session),
              app := set_timer t (upsert_session session (app w))\<rparr>)
      else (Rejected, w))"

definition startTimer :: "string \<Rightarrow> string \<Rightarrow> int \<Rightarrow> World \<Rightarrow> outcome \<times> World" where
  "startTimer newId task now w =
     (let interval = \<lparr>start = now, end_iv = None\<rparr>;
          newTimer = \<lparr>sessionId = newId, taskId_timer = task, status = Running,
                      intervals_timer = [interval], elapsedMs = 0, intervalStart = Some now\<rparr>
      in save_and_set (new_session newId task [interval]) (Some newTimer) w)"

text \<open>
  \<^verbatim>\<open>timer.intervals.map((iv, i) => i === timer.intervals.length - 1 ? { ...iv, end: now } : iv)\<close>
  and, in \<open>stopTimer\<close>, the same with the extra test \<open>iv.end === null\<close>.
\<close>

definition close_last :: "int \<Rightarrow> TimeInterval list \<Rightarrow> TimeInterval list" where
  "close_last now ivs =
     map (\<lambda>(i, iv). if int i = int (length ivs) - 1 then iv\<lparr>end_iv := Some now\<rparr> else iv)
       (enumerate 0 ivs)"

definition close_last_open :: "int \<Rightarrow> TimeInterval list \<Rightarrow> TimeInterval list" where
  "close_last_open now ivs =
     map (\<lambda>(i, iv). if int i = int (length ivs) - 1 \<and> end_iv iv = None
                      then iv\<lparr>end_iv := Some now\<rparr> else iv)
       (enumerate 0 ivs)"

text \<open>
  \<open>pauseTimer\<close>. The guard \<^verbatim>\<open>if (!timer || timer.status !== 'running' || !timer.intervalStart) return;\<close>
  returns when \<open>intervalStart\<close> is falsy: \<open>null\<close>, and also the number \<open>0\<close>.
\<close>

definition pauseTimer :: "int \<Rightarrow> World \<Rightarrow> outcome \<times> World" where
  "pauseTimer now w =
     (case timer (app w) of
        None \<Rightarrow> (Resolved, w)
      | Some t \<Rightarrow>
          (case intervalStart t of
             None \<Rightarrow> (Resolved, w)
           | Some st \<Rightarrow>
               if status t = Running \<and> \<not> st = 0
               then (let elapsed = elapsedMs t + (now - st);
                         closedIntervals = close_last now (intervals_timer t);
                         updated = t\<lparr>status := Paused, intervals_timer := closedIntervals,
                                     elapsedMs := elapsed, intervalStart := None\<rparr>
                     in save_and_set (new_session (sessionId t) (taskId_timer t) closedIntervals)
                          (Some updated) w)
               else (Resolved, w)))"

definition resumeTimer :: "int \<Rightarrow> World \<Rightarrow> outcome \<times> World" where
  "resumeTimer now w =
     (case timer (app w) of
        None \<Rightarrow> (Resolved, w)
      | Some t \<Rightarrow>
          if status t = Paused
          then (let newInterval = \<lparr>start = now, end_iv = None\<rparr>;
                    updated = t\<lparr>status := Running,
                                intervals_timer := intervals_timer t @ [newInterval],
                                intervalStart := Some now\<rparr>
                in save_and_set (new_session (sessionId t) (taskId_timer t) (intervals_timer updated))
                     (Some updated) w)
          else (Resolved, w))"

definition stopTimer :: "bool \<Rightarrow> int \<Rightarrow> World \<Rightarrow> outcome \<times> World" where
  "stopTimer save now w =
     (case timer (app w) of
        None \<Rightarrow> (Resolved, w)
      | Some t \<Rightarrow>
          if save
          then save_and_set
                 (new_session (sessionId t) (taskId_timer t) (close_last_open now (intervals_timer t)))
                 None w
          else if db_ok w
          then (Resolved,
                w\<lparr>db_sessions := (db_sessions w)(sessionId t := None),
                  app := set_timer None (delete_session (sessionId t) (app w))\<rparr>)
          else (Rejected, w))"

text \<open>A session's total duration, once every interval is closed.\<close>

definition duration :: "TimeInterval list \<Rightarrow> int" where
  "duration ivs = (\<Sum>iv\<leftarrow>ivs. (case end_iv iv of None \<Rightarrow> 0 | Some e \<Rightarrow> e - start iv))"

definition initialWorld :: World where
  "initialWorld = \<lparr>app = \<lparr>sessions = [], timer = None\<rparr>, db_sessions = Map.empty, db_ok = True\<rparr>"

subsection \<open>Interrupted-session detection\<close>

text \<open>
  \<^verbatim>\<open>Math.max(...s.intervals.map((iv) => iv.start))\<close>. For an empty list JavaScript gives
  \<open>-Infinity\<close>; \<open>findInterruptedSession\<close> computes the value only for sessions that
  passed the filter, which have an interval, so the value chosen for \<open>[]\<close> is never used.
\<close>

definition max_start :: "Session \<Rightarrow> int" where
  "max_start s = (case map start (intervals s) of [] \<Rightarrow> 0 | x # xs \<Rightarrow> fold max xs x)"

text \<open>
  \<open>Array.prototype.sort\<close> is stable, and the comparator \<open>bStart - aStart\<close> orders by
  decreasing key: the stable sort by the negated key.
\<close>

definition findInterruptedSession :: "Session list \<Rightarrow> Session option" where
  "findInterruptedSession ss =
     (let interrupted = filter (\<lambda>s. list_ex (\<lambda>iv. end_iv iv = None) (intervals s)) ss in
      if length interrupted = 0 then None
      else Some (hd (sort_key (\<lambda>s. - max_start s) interrupted)))"

section \<open>The other day bucketing (utils/helpers.ts)\<close>

text \<open>
  \<open>calculateTimeByDay\<close> works on \<open>Date\<close> objects, here their timestamps.
  \<open>setHours(0, 0, 0, 0)\<close> keeps the local date and sets the time of day to 0;
  \<open>setHours(23, 59, 59, 999)\<close> sets it to 86399999. The key \<open>dayKey\<close> is the local date of
  the cursor. Of a session only \<open>intervals\<close> is read. The result is a \<open>Map\<close> from the date
  key to milliseconds; as in \<open>dateRange\<close>, the outer \<open>None\<close> stands for a \<open>while\<close> loop
  that does not end.
\<close>

definition end_or_now :: "int \<Rightarrow> int option \<Rightarrow> int" where
  "end_or_now now e = (case e of None \<Rightarrow> now | Some v \<Rightarrow> if v = 0 then now else v)"

definition getStartOfDay :: "zone \<Rightarrow> int \<Rightarrow> int" where
  "getStartOfDay z ts = UTC z (LocalTime z ts div 86400000 * 86400000)"

definition getEndOfDay :: "zone \<Rightarrow> int \<Rightarrow> int" where
  "getEndOfDay z ts = UTC z (LocalTime z ts div 86400000 * 86400000 + 86399999)"

partial_function (option) day_loop ::
  "zone \<Rightarrow> int \<Rightarrow> int \<Rightarrow> int \<Rightarrow> int \<Rightarrow> int \<Rightarrow> int \<Rightarrow> (int \<rightharpoonup> int) \<Rightarrow> (int \<rightharpoonup> int) option"
where
  "day_loop z startMidnight endDate ivStart ivEnd endDay currentDay timeByDay =
     (if currentDay \<le> endDay \<and> currentDay \<le> endDate
      then day_loop z startMidnight endDate ivStart ivEnd endDay (setDate_next z currentDay)
             (if currentDay \<ge> startMidnight
              then (let dayKey = toLocalDate z currentDay;
                        dayStart = getStartOfDay z currentDay;
                        dayEnd = getEndOfDay z currentDay;
                        overlapStart = max ivStart dayStart;
                        overlapEnd = min ivEnd dayEnd
                    in if overlapEnd > overlapStart
                       then timeByDay(dayKey \<mapsto>
                              (case timeByDay dayKey of None \<Rightarrow> 0 | Some v \<Rightarrow> v)
                                + (overlapEnd - overlapStart))
                       else timeByDay)
              else timeByDay)
      else Some timeByDay)"

declare day_loop.simps [code]

text \<open>A \<open>for\<close> loop whose body may not return.\<close>

fun fold_option :: "('a \<Rightarrow> 'b \<Rightarrow> 'b option) \<Rightarrow> 'a list \<Rightarrow> 'b \<Rightarrow> 'b option" where
  "fold_option f [] b = Some b"
| "fold_option f (x # xs) b = (case f x b of None \<Rightarrow> None | Some b' \<Rightarrow> fold_option f xs b')"

definition calculateTimeByDay ::
  "zone \<Rightarrow> int \<Rightarrow> Session list \<Rightarrow> int \<Rightarrow> int \<Rightarrow> (int \<rightharpoonup> int) option"
where
  "calculateTimeByDay z now ss startDate endDate =
     (let startMidnight = getStartOfDay z startDate in
      fold_option (\<lambda>session. fold_option (\<lambda>interval timeByDay.
              (let ivEnd = end_or_now now (end_iv interval);
                   ivStart = start interval;
                   startDay = getStartOfDay z ivStart;
                   endDay = getStartOfDay z ivEnd
               in day_loop z startMidnight endDate ivStart ivEnd endDay startDay timeByDay))
            (intervals session))
        ss Map.empty)"

section \<open>Time zones to run the functions in\<close>

text \<open>
  \<open>utc\<close>: local time is UTC. \<open>fall_back\<close>: at 02:00 of day 0 the clock is set back to
  01:00 (the end of daylight saving time), so day 0 lasts 25 hours. \<open>skipped_midnight\<close>:
  at 00:00 of day 1 the clock is set forward to 01:00 (daylight saving time starting at
  midnight, as in America/Santiago), so the local times from 00:00 to 01:00 of day 1 do
  not exist.
\<close>

definition utc :: zone where
  "utc = \<lparr>LocalTime = (\<lambda>t. t), UTC = (\<lambda>l. l)\<rparr>"

definition fall_back :: zone where
  "fall_back =
     \<lparr>LocalTime = (\<lambda>t. if t < 7200000 then t else t - 3600000),
      UTC = (\<lambda>l. if l < 7200000 then l else l + 3600000)\<rparr>"

definition skipped_midnight :: zone where
  "skipped_midnight =
     \<lparr>LocalTime = (\<lambda>t. if t < 86400000 then t else t + 3600000),
      UTC = (\<lambda>l. if l < 90000000 then l else l - 3600000)\<rparr>"


section \<open>Notions the properties are stated with\<close>

text \<open>
  The parent links of a category list as a relation (parent, child), read the way the
  walk reads them: through \<open>parent_of\<close>, which takes the first category with the id.
\<close>

definition parent_rel :: "Category list \<Rightarrow> (string \<times> string) set" where
  "parent_rel categories = {(p, c). parent_of categories c = Some p}"

text \<open>
  \<open>stops categories selectedIds cur\<close>: following parent links from \<open>cur\<close>, a selected id, a
  category without parent or an id that no category has is reached after finitely many
  steps.
\<close>

inductive stops :: "Category list \<Rightarrow> string set \<Rightarrow> string option \<Rightarrow> bool"
  for categories :: "Category list" and selectedIds :: "string set"
where
  stops_null: "stops categories selectedIds None"
| stops_selected: "c \<in> selectedIds \<Longrightarrow> stops categories selectedIds (Some c)"
| stops_parent:
    "c \<notin> selectedIds \<Longrightarrow> stops categories selectedIds (parent_of categories c)
     \<Longrightarrow> stops categories selectedIds (Some c)"

text \<open>
  \<open>ancestor categories n c\<close> is the category reached from \<open>c\<close> after \<open>n\<close> parent links:
  \<open>c\<close> itself for 0, its parent for 1, its grandparent for 2. \<open>first_selected\<close> says that
  \<open>d\<close> is the first selected id on that chain, \<open>none_selected\<close> that the chain holds no
  selected id.
\<close>

fun ancestor :: "Category list \<Rightarrow> nat \<Rightarrow> string \<Rightarrow> string option" where
  "ancestor categories 0 c = Some c"
| "ancestor categories (Suc n) c =
     (case parent_of categories c of None \<Rightarrow> None | Some p \<Rightarrow> ancestor categories n p)"

definition first_selected :: "Category list \<Rightarrow> string set \<Rightarrow> string \<Rightarrow> string \<Rightarrow> bool" where
  "first_selected categories selectedIds c d \<longleftrightarrow>
     (\<exists>n. ancestor categories n c = Some d \<and> d \<in> selectedIds
          \<and> (\<forall>k<n. \<forall>a. ancestor categories k c = Some a \<longrightarrow> a \<notin> selectedIds))"

definition none_selected :: "Category list \<Rightarrow> string set \<Rightarrow> string \<Rightarrow> bool" where
  "none_selected categories selectedIds c \<longleftrightarrow>
     (\<forall>n a. ancestor categories n c = Some a \<longrightarrow> a \<notin> selectedIds)"


fun num_of :: "jsval \<Rightarrow> int" where
  "num_of (Num n) = n"
| "num_of Str = 0"

definition numbers :: "(string \<times> jsval) list \<Rightarrow> bool" where
  "numbers bt = (\<forall>p \<in> set bt. \<exists>n. snd p = Num n)"

definition values_sum :: "(string \<times> jsval) list \<Rightarrow> int" where
  "values_sum bt = (\<Sum>p\<leftarrow>bt. num_of (snd p))"

definition bucket_ok :: "(string \<times> jsval) list \<times> int \<Rightarrow> bool" where
  "bucket_ok acc = (numbers (fst acc) \<and> snd acc = values_sum (fst acc) \<and> distinct (map fst (fst acc)))"

definition merged_ok :: "(string \<times> jsval) list \<times> jsval \<Rightarrow> bool" where
  "merged_ok acc = (numbers (fst acc) \<and> snd acc = Num (values_sum (fst acc)) \<and> distinct (map fst (fst acc)))"

section \<open>Concrete inputs\<close>

text \<open>
  The scenario of the specification with the clock started at \<open>T\<close>: start, pause one
  minute later, resume after another minute, stop and save after a third. The result is
  the world after the four commands.
\<close>

definition timer_scenario :: "int \<Rightarrow> World" where
  "timer_scenario T =
     (let w1 = snd (startTimer ''s1'' ''t1'' T initialWorld);
          w2 = snd (pauseTimer (T + 60000) w1);
          w3 = snd (resumeTimer (T + 120000) w2)
      in snd (stopTimer True (T + 180000) w3))"

text \<open>A world with a running timer, and one with a paused timer.\<close>

definition runningWorld :: World where
  "runningWorld = snd (startTimer ''s1'' ''t1'' 1000 initialWorld)"

definition pausedWorld :: World where
  "pausedWorld = snd (pauseTimer 61000 runningWorld)"

text \<open>
  Two interrupted sessions. In \<open>session_A\<close> the open interval starts at 0 and a closed
  interval starts later, at 100; in \<open>session_B\<close> the open interval starts at 50.
\<close>

definition session_A :: Session where
  "session_A = new_session ''A'' ''t1''
     [\<lparr>start = 0, end_iv = None\<rparr>, \<lparr>start = 100, end_iv = Some 200\<rparr>]"

definition session_B :: Session where
  "session_B = new_session ''B'' ''t1'' [\<lparr>start = 50, end_iv = None\<rparr>]"

text \<open>
  A well-formed tree (folder \<open>f\<close> with task \<open>t\<close>), and a malformed list in which the
  folders \<open>f\<close> and \<open>g\<close> are each other's parent, with task \<open>t\<close> under \<open>f\<close>.
\<close>

definition category :: "string \<Rightarrow> ItemType \<Rightarrow> string option \<Rightarrow> Category" where
  "category i ty p =
     \<lparr>id_cat = i, type_cat = ty, name_cat = i, color_cat = ''#e05c3a'', parentId = p, order_cat = 0\<rparr>"

definition tree_categories :: "Category list" where
  "tree_categories = [category ''f'' Folder None, category ''t'' Task (Some ''f'')]"

definition cyclic_categories :: "Category list" where
  "cyclic_categories =
     [category ''f'' Folder (Some ''g''), category ''g'' Folder (Some ''f''),
      category ''t'' Task (Some ''f'')]"

text \<open>
  \<open>late_session\<close>: one interval from 23:00 of day 0 to 01:00 of day 1 in the zone
  \<open>fall_back\<close>, where 23:00 of day 0 comes 24 hours after that day began and the
  midnight between the two days one hour later.
  \<open>evening_session\<close>: one interval from 23:00 of day 0 to 01:00 of day 1 in UTC.
\<close>

definition late_session :: Session where
  "late_session = new_session ''s1'' ''t1'' [\<lparr>start = 86400000, end_iv = Some 93600000\<rparr>]"

definition evening_session :: Session where
  "evening_session = new_session ''s1'' ''t1'' [\<lparr>start = 82800000, end_iv = Some 90000000\<rparr>]"

section \<open>Properties of the day aggregator\<close>

lemma overlap_nonneg: "0 \<le> overlap a b c d"
  by (simp add: overlap_def)

lemma overlap_le0: "overlap a b c d \<le> 0 \<Longrightarrow> overlap a b c d = 0"
  using overlap_nonneg[of a b c d] by linarith

lemma aggregate_day_eq:
  "aggregate_day z ss d =
     \<lparr>date = d,
      totalMs = Num (snd (fold (add_session (mid z d) (mid z d + 86400000)) ss ([], 0))),
      byTask = fst (fold (add_session (mid z d) (mid z d + 86400000)) ss ([], 0))\<rparr>"
  by (simp add: aggregate_day_def dayBounds_def Let_def case_prod_beta)

lemma day_share_eq:
  "day_share z d iv =
     (case end_iv iv of None \<Rightarrow> 0 | Some e \<Rightarrow> overlap (start iv) e (mid z d) (mid z d + 86400000))"
  by (simp add: day_share_def dayBounds_def Let_def split: option.splits)


lemma setDate_next_eq: "setDate_next z ts = UTC z (LocalTime z ts + 86400000)"
proof -
  have "(LocalTime z ts div 86400000 + 1) * 86400000 + LocalTime z ts mod 86400000
          = LocalTime z ts + 86400000"
    by (simp add: algebra_simps)
  then show ?thesis by (simp add: setDate_next_def)
qed

lemma not_inherited_proto: "\<not> inherited k \<Longrightarrow> k \<noteq> ''__proto__''"
  by (auto simp: inherited_def proto_members_def)

subsection \<open>What each bucket holds\<close>

lemma snd_add_interval:
  "snd (add_interval (mid z d) (mid z d + 86400000) tid iv acc) = snd acc + day_share z d iv"
  by (auto simp: add_interval_def day_share_eq Let_def overlap_le0 split: option.splits)

lemma snd_fold_add_interval:
  "snd (fold (add_interval (mid z d) (mid z d + 86400000) tid) ivs acc)
     = snd acc + (\<Sum>iv\<leftarrow>ivs. day_share z d iv)"
  by (induction ivs arbitrary: acc) (auto simp: snd_add_interval)

lemma snd_fold_add_session:
  "snd (fold (add_session (mid z d) (mid z d + 86400000)) ss acc)
     = snd acc + (\<Sum>s\<leftarrow>ss. \<Sum>iv\<leftarrow>intervals s. day_share z d iv)"
  by (induction ss arbitrary: acc) (auto simp: add_session_def snd_fold_add_interval)

lemma totalMs_aggregate_day:
  "totalMs (aggregate_day z ss d) = Num (\<Sum>s\<leftarrow>ss. \<Sum>iv\<leftarrow>intervals s. day_share z d iv)"
  using snd_fold_add_session[of z d ss "([], 0)"]
  by (simp add: aggregate_day_eq)









subsection \<open>Skipping open intervals\<close>









subsection \<open>The dates of a range\<close>




text \<open>
  In a zone where every local midnight exists, so that the cursor stays on local midnight,
  the dates of the range are all the dates from the first to the last. Where a clock change
  skips a local midnight, the cursor is at 01:00 from then on and the last date of the range
  is left out: in \<open>skipped_midnight\<close> the range from date 0 to date 2 has the dates 0 and 1.
\<close>

lemma dateRange_loop_regular:
  assumes "\<And>d. toLocalDate z (mid z d) = d"
    and "\<And>d. setDate_next z (mid z d) = mid z (d + 1)"
    and "\<And>d d'. mid z d \<le> mid z d' \<longleftrightarrow> d \<le> d'"
  shows "dateRange_loop z (mid z b) (mid z a) dates = Some (dates @ [a..b])"
proof (induction a arbitrary: dates rule: measure_induct_rule[where f = "\<lambda>a. nat (b + 1 - a)"])
  case (less a)
  show ?case
  proof (cases "a \<le> b")
    case True
    then have "nat (b + 1 - (a + 1)) < nat (b + 1 - a)" by simp
    from less[OF this, of "dates @ [a]"] True show ?thesis
      by (subst dateRange_loop.simps) (simp add: assms upto_rec1)
  next
    case False
    then show ?thesis
      by (subst dateRange_loop.simps) (simp add: assms)
  qed
qed

lemma dateRange_regular:
  assumes "\<And>d. toLocalDate z (mid z d) = d"
    and "\<And>d. setDate_next z (mid z d) = mid z (d + 1)"
    and "\<And>d d'. mid z d \<le> mid z d' \<longleftrightarrow> d \<le> d'"
  shows "dateRange z a b = Some [a..b]"
  using dateRange_loop_regular[OF assms, of b a "[]"] by (simp add: dateRange_def)

lemma dateRange_utc: "dateRange utc a b = Some [a..b]"
  by (rule dateRange_regular) (simp_all add: toLocalDate_def mid_def setDate_next_eq utc_def algebra_simps)

lemma dateRange_skipped_midnight: "dateRange skipped_midnight 0 2 = Some [0, 1]"
  by code_simp

subsection \<open>The aggregator as a whole\<close>




subsection \<open>The total of a bucket and the sum of its per-task values\<close>

text \<open>
  Where no task id (for \<open>mergeDayDataWithDisplay\<close>: no display id) names a member of
  \<open>Object.prototype\<close>, and the day data given to \<open>mergeDayDataWithDisplay\<close> holds numbers,
  every record the two functions build holds numbers under distinct keys, and its
  \<open>totalMs\<close> is their sum.
\<close>

lemma values_sum_update:
  "values_sum (AList.update k v bt)
     = values_sum bt - (case map_of bt k of None \<Rightarrow> 0 | Some w \<Rightarrow> num_of w) + num_of v"
  by (induction bt) (auto simp: values_sum_def)

lemma numbers_update: "numbers bt \<Longrightarrow> numbers (AList.update k (Num n) bt)"
  by (induction bt) (auto simp: numbers_def)

lemma numbers_map_of: "numbers bt \<Longrightarrow> map_of bt k = Some w \<Longrightarrow> \<exists>n. w = Num n"
  by (auto simp: numbers_def dest!: map_of_SomeD)

lemma plus_entry_number:
  assumes "numbers bt" "\<not> inherited k"
  shows "plus_entry bt k (Num ms)
           = Num ((case map_of bt k of None \<Rightarrow> 0 | Some w \<Rightarrow> num_of w) + ms)"
proof (cases "map_of bt k")
  case None
  with assms show ?thesis by (simp add: plus_entry_def)
next
  case (Some w)
  with numbers_map_of[OF assms(1) Some] show ?thesis
    by (auto simp: plus_entry_def)
qed

lemma assign_number:
  assumes "numbers bt" "\<not> inherited k" "distinct (map fst bt)"
  shows "numbers (assign bt k (plus_entry bt k (Num ms)))"
    and "values_sum (assign bt k (plus_entry bt k (Num ms))) = values_sum bt + ms"
    and "distinct (map fst (assign bt k (plus_entry bt k (Num ms))))"
  using assms not_inherited_proto[OF assms(2)]
  by (simp_all add: assign_def plus_entry_number numbers_update values_sum_update distinct_update)

lemma add_interval_ok:
  "\<not> inherited tid \<Longrightarrow> bucket_ok acc \<Longrightarrow> bucket_ok (add_interval ds de tid iv acc)"
  by (auto simp: add_interval_def bucket_ok_def Let_def assign_number split: option.splits)

lemma fold_add_interval_ok:
  "\<not> inherited tid \<Longrightarrow> bucket_ok acc \<Longrightarrow> bucket_ok (fold (add_interval ds de tid) ivs acc)"
  by (induction ivs arbitrary: acc) (auto simp: add_interval_ok)

lemma fold_add_session_ok:
  "\<forall>s \<in> set ss. \<not> inherited (taskId s) \<Longrightarrow> bucket_ok acc \<Longrightarrow>
   bucket_ok (fold (add_session ds de) ss acc)"
  by (induction ss arbitrary: acc) (auto simp: add_session_def fold_add_interval_ok)

lemma aggregate_day_ordinary_ids:
  assumes "\<forall>s \<in> set ss. \<not> inherited (taskId s)"
  shows "totalMs (aggregate_day z ss d) = Num (values_sum (byTask (aggregate_day z ss d)))"
    and "numbers (byTask (aggregate_day z ss d))"
    and "distinct (map fst (byTask (aggregate_day z ss d)))"
  using fold_add_session_ok[OF assms, of "([], 0)" "mid z d" "mid z d + 86400000"]
  by (simp_all add: aggregate_day_eq bucket_ok_def numbers_def values_sum_def)

lemma merge_entry_ok:
  assumes "\<forall>k d. em k = Some d \<longrightarrow> \<not> inherited d" "\<exists>n. snd e = Num n" "merged_ok acc"
  shows "merged_ok (merge_entry em e acc)"
proof (cases "em (fst e)")
  case None
  with assms show ?thesis by (simp add: merge_entry_def)
next
  case (Some dId)
  with assms(1) have ni: "\<not> inherited dId" by blast
  from assms(2) obtain n where n: "snd e = Num n" by blast
  from assms(3) have ok: "numbers (fst acc)" "snd acc = Num (values_sum (fst acc))"
     "distinct (map fst (fst acc))"
    by (simp_all add: merged_ok_def)
  show ?thesis
    using Some n ok assign_number[OF ok(1) ni ok(3), of n]
    by (simp add: merge_entry_def merged_ok_def)
qed

lemma fold_merge_entry_ok:
  "\<forall>k d. em k = Some d \<longrightarrow> \<not> inherited d \<Longrightarrow> numbers es \<Longrightarrow> merged_ok acc \<Longrightarrow>
   merged_ok (fold (merge_entry em) es acc)"
proof (induction es arbitrary: acc)
  case Nil
  then show ?case by simp
next
  case (Cons e es)
  from Cons.prems(2) have e: "\<exists>n. snd e = Num n" and es: "numbers es"
    by (simp_all add: numbers_def)
  from Cons.IH[OF Cons.prems(1) es merge_entry_ok[OF Cons.prems(1) e Cons.prems(3)]]
  show ?case by simp
qed

lemma merge_day_eq:
  "merge_day em day =
     day\<lparr>totalMs := snd (fold (merge_entry em) (byTask day) ([], Num 0)),
         byTask := fst (fold (merge_entry em) (byTask day) ([], Num 0))\<rparr>"
  by (simp add: merge_day_def case_prod_beta)

lemma merge_day_ordinary_ids:
  assumes "\<forall>k d. em k = Some d \<longrightarrow> \<not> inherited d" "numbers (byTask day)"
  shows "totalMs (merge_day em day) = Num (values_sum (byTask (merge_day em day)))"
    and "numbers (byTask (merge_day em day))"
    and "distinct (map fst (byTask (merge_day em day)))"
  using fold_merge_entry_ok[OF assms, of "([], Num 0)"]
  by (simp_all add: merge_day_eq merged_ok_def numbers_def values_sum_def)

text \<open>
  Claim C9, evaluated on the code at ids that name members of \<open>Object.prototype\<close>. For a
  session of the task id \<open>__proto__\<close> with 4000 ms in the day, \<open>byTask[taskId] = ...\<close> is
  ignored while \<open>totalMs += ms\<close> is not: the record has \<open>totalMs\<close> 4000 and an empty
  \<open>byTask\<close>. For the task id \<open>constructor\<close> the value stored in \<open>byTask\<close> is a string. In
  \<open>mergeDayDataWithDisplay\<close>, a task whose display id is \<open>__proto__\<close> adds its 4000 ms to
  \<open>totalMs\<close> and nothing to \<open>byTask\<close>: the total is 5000, the values sum to 1000.
\<close>

theorem C9_prototype_named_ids_break_the_sum:
  "aggregateToDays utc [new_session ''s1'' ''__proto__'' [\<lparr>start = 1000, end_iv = Some 5000\<rparr>]] 0 0
     = Some [\<lparr>date = 0, totalMs = Num 4000, byTask = []\<rparr>]
   \<and> aggregateToDays utc [new_session ''s1'' ''constructor'' [\<lparr>start = 1000, end_iv = Some 5000\<rparr>]] 0 0
     = Some [\<lparr>date = 0, totalMs = Num 4000, byTask = [(''constructor'', Str)]\<rparr>]
   \<and> mergeDayDataWithDisplay
        [\<lparr>date = 0, totalMs = Num 5000, byTask = [(''a'', Num 4000), (''b'', Num 1000)]\<rparr>]
        [''a'' \<mapsto> ''__proto__'', ''b'' \<mapsto> ''f'']
     = [\<lparr>date = 0, totalMs = Num 5000, byTask = [(''f'', Num 1000)]\<rparr>]"
  by code_simp

subsection \<open>An interval across one midnight\<close>

text \<open>
  In a zone with a fixed offset, where every local day lasts 24 hours, an interval that
  starts in day \<open>d\<close> and ends in day \<open>d + 1\<close> is split exactly: the bucket of \<open>d\<close> gets
  the part before the midnight, the bucket of \<open>d + 1\<close> the part after it, both positive,
  the bucket of every other date gets 0, and the two parts add up to the duration.
\<close>

lemma two_day_split_fixed_offset:
  assumes zone: "\<And>k. mid z k = c + k * 86400000"
    and "mid z d \<le> s" "s < mid z (d + 1)" "mid z (d + 1) < e" "e \<le> mid z (d + 2)"
  shows "totalMs (aggregate_day z [new_session i t [\<lparr>start = s, end_iv = Some e\<rparr>]] k)
           = Num (if k = d then mid z (d + 1) - s else if k = d + 1 then e - mid z (d + 1) else 0)"
    and "0 < mid z (d + 1) - s" and "0 < e - mid z (d + 1)"
    and "(mid z (d + 1) - s) + (e - mid z (d + 1)) = e - s"
proof -
  have share: "day_share z k \<lparr>start = s, end_iv = Some e\<rparr>
      = (if k = d then mid z (d + 1) - s else if k = d + 1 then e - mid z (d + 1) else 0)"
  proof -
    consider "k < d" | "k = d" | "k = d + 1" | "d + 1 < k" by linarith
    then show ?thesis
    proof cases
      case 1
      then have "k + 1 \<le> d" by simp
      then have "mid z k + 86400000 \<le> mid z d" by (simp add: zone)
      with assms(2) 1 show ?thesis by (simp add: day_share_eq overlap_def)
    next
      case 2
      with assms(2-5) show ?thesis by (simp add: day_share_eq overlap_def zone)
    next
      case 3
      with assms(2-5) show ?thesis by (simp add: day_share_eq overlap_def zone)
    next
      case 4
      then have "d + 2 \<le> k" by simp
      then have "mid z (d + 2) \<le> mid z k" by (simp add: zone)
      with assms(5) 4 show ?thesis by (simp add: day_share_eq overlap_def)
    qed
  qed
  show "totalMs (aggregate_day z [new_session i t [\<lparr>start = s, end_iv = Some e\<rparr>]] k)
           = Num (if k = d then mid z (d + 1) - s else if k = d + 1 then e - mid z (d + 1) else 0)"
    by (simp add: totalMs_aggregate_day new_session_def share)
  show "0 < mid z (d + 1) - s" "0 < e - mid z (d + 1)" "(mid z (d + 1) - s) + (e - mid z (d + 1)) = e - s"
    using assms(3,4) by simp_all
qed

text \<open>
  Claim C5, evaluated on the code where a local day does not last 24 hours. In the zone
  \<open>fall_back\<close> day 0 lasts 25 hours. The interval of \<open>late_session\<close>, from 23:00 of day 0
  to 01:00 of day 1, lasts 7200000 ms, one hour in each day. But \<open>dayBounds\<close> ends the
  window of day 0 24 hours after its midnight, at 23:00, an hour before the day is over:
  the bucket of day 0 gets nothing, and that of day 1 gets 3600000 ms.
\<close>

theorem C5_split_across_a_25_hour_day:
  "mid fall_back 0 \<le> 86400000 \<and> 86400000 < mid fall_back 1
   \<and> mid fall_back 1 < 93600000 \<and> 93600000 < mid fall_back 2
   \<and> map_option (map totalMs) (aggregateToDays fall_back [late_session] 0 1)
       = Some [Num 0, Num 3600000]
   \<and> duration (intervals late_session) = 7200000"
  by code_simp

subsection \<open>Comparison with \<open>calculateTimeByDay\<close>\<close>

text \<open>
  For an interval that lies within one local day of 24 hours inside the range, the two
  functions give that day the same amount, the duration of the interval.
\<close>

lemma same_day_interval_agrees:
  assumes day: "getStartOfDay z s = m" "getStartOfDay z e = m"
    and m: "toLocalDate z m = d" "mid z d = m" "getStartOfDay z m = m"
      "getEndOfDay z m = m + 86399999" "m < setDate_next z m"
    and inside: "m \<le> s" "s < e" "e \<le> m + 86399999"
    and e0: "e \<noteq> 0"
    and range: "getStartOfDay z startDate \<le> m" "m \<le> endDate"
  shows "calculateTimeByDay z now [new_session i t [\<lparr>start = s, end_iv = Some e\<rparr>]]
           startDate endDate = Some [d \<mapsto> e - s]"
    and "totalMs (aggregate_day z [new_session i t [\<lparr>start = s, end_iv = Some e\<rparr>]] d) = Num (e - s)"
proof -
  have "day_loop z (getStartOfDay z startDate) endDate s e m m Map.empty = Some [d \<mapsto> e - s]"
    using m inside range
    by (simp add: day_loop.simps[of _ _ _ _ _ m m] day_loop.simps[of _ _ _ _ _ m "setDate_next z m"]
        Let_def)
  then show "calculateTimeByDay z now [new_session i t [\<lparr>start = s, end_iv = Some e\<rparr>]]
           startDate endDate = Some [d \<mapsto> e - s]"
    using day e0 by (simp add: calculateTimeByDay_def new_session_def end_or_now_def Let_def)
  show "totalMs (aggregate_day z [new_session i t [\<lparr>start = s, end_iv = Some e\<rparr>]] d) = Num (e - s)"
    using inside m(2)
    by (simp add: totalMs_aggregate_day new_session_def day_share_eq overlap_def)
qed

text \<open>
  Claim C10, evaluated on the code. For the closed interval from 23:00 of day 0 to 01:00
  of day 1 and the range of these two days, \<open>aggregateToDays\<close> gives 3600000 ms to each
  day, and \<open>calculateTimeByDay\<close> gives day 0 only 3599999 ms: it clips the interval at
  \<open>getEndOfDay\<close>, 23:59:59.999, and the last millisecond of the day is counted nowhere.
\<close>

theorem C10_day_totals_differ_at_midnight:
  "map_option (map totalMs) (aggregateToDays utc [evening_session] 0 1)
     = Some [Num 3600000, Num 3600000]
   \<and> map_option (\<lambda>timeByDay. map timeByDay [0, 1])
        (calculateTimeByDay utc 100000000 [evening_session] 0 86400000)
       = Some [Some 3599999, Some 3600000]"
  by code_simp

section \<open>Properties of the derived statistics\<close>






section \<open>Properties of the timer state machine\<close>

lemma close_last_snoc: "close_last now (xs @ [iv]) = xs @ [iv\<lparr>end_iv := Some now\<rparr>]"
proof -
  have "map (\<lambda>(i, iv'). if int i = int (length (xs @ [iv])) - 1
                          then iv'\<lparr>end_iv := Some now\<rparr> else iv')
          (enumerate 0 xs) = map snd (enumerate 0 xs)"
    by (rule map_cong) (auto simp: in_set_enumerate_eq)
  then show ?thesis
    by (simp add: close_last_def enumerate_append_eq)
qed

lemma close_last_open_snoc:
  "close_last_open now (xs @ [iv])
     = xs @ [if end_iv iv = None then iv\<lparr>end_iv := Some now\<rparr> else iv]"
proof -
  have "map (\<lambda>(i, iv'). if int i = int (length (xs @ [iv])) - 1 \<and> end_iv iv' = None
                          then iv'\<lparr>end_iv := Some now\<rparr> else iv')
          (enumerate 0 xs) = map snd (enumerate 0 xs)"
    by (rule map_cong) (auto simp: in_set_enumerate_eq)
  then show ?thesis
    by (simp add: close_last_open_def enumerate_append_eq)
qed

text \<open>
  What the three commands do when the state permits them and the database write succeeds:
  pause closes the last interval at \<open>now\<close>, resume appends an open interval starting at
  \<open>now\<close>, stop with \<open>save\<close> closes a trailing open interval at \<open>now\<close>; each writes the
  session to the database, and stop resets the timer.
\<close>

lemma pauseTimer_effect:
  assumes "timer (app w) = Some t" "status t = Running" "intervalStart t = Some st" "st \<noteq> 0"
    and "db_ok w"
  shows "fst (pauseTimer now w) = Resolved"
    and "db_sessions (snd (pauseTimer now w)) (sessionId t)
           = Some (new_session (sessionId t) (taskId_timer t) (close_last now (intervals_timer t)))"
    and "timer (app (snd (pauseTimer now w)))
           = Some (t\<lparr>status := Paused, intervals_timer := close_last now (intervals_timer t),
                     elapsedMs := elapsedMs t + (now - st), intervalStart := None\<rparr>)"
  using assms
  by (simp_all add: pauseTimer_def save_and_set_def set_timer_def upsert_session_def
      new_session_def Let_def)

lemma resumeTimer_effect:
  assumes "timer (app w) = Some t" "status t = Paused" "db_ok w"
  shows "fst (resumeTimer now w) = Resolved"
    and "db_sessions (snd (resumeTimer now w)) (sessionId t)
           = Some (new_session (sessionId t) (taskId_timer t)
                     (intervals_timer t @ [\<lparr>start = now, end_iv = None\<rparr>]))"
    and "timer (app (snd (resumeTimer now w)))
           = Some (t\<lparr>status := Running,
                     intervals_timer := intervals_timer t @ [\<lparr>start = now, end_iv = None\<rparr>],
                     intervalStart := Some now\<rparr>)"
  using assms
  by (simp_all add: resumeTimer_def save_and_set_def set_timer_def upsert_session_def
      new_session_def Let_def)

lemma stopTimer_save_effect:
  assumes "timer (app w) = Some t" "db_ok w"
  shows "fst (stopTimer True now w) = Resolved"
    and "db_sessions (snd (stopTimer True now w)) (sessionId t)
           = Some (new_session (sessionId t) (taskId_timer t)
                     (close_last_open now (intervals_timer t)))"
    and "timer (app (snd (stopTimer True now w))) = None"
  using assms
  by (simp_all add: stopTimer_def save_and_set_def set_timer_def upsert_session_def
      new_session_def Let_def)

text \<open>
  With the clock started at any reading other than 0, the scenario ends with the two
  intervals of the specification in the database, 120000 ms in all.
\<close>

lemma timer_scenario_from_nonzero:
  "T \<noteq> 0 \<Longrightarrow>
   map_option intervals (db_sessions (timer_scenario T) ''s1'')
     = Some [\<lparr>start = T, end_iv = Some (T + 60000)\<rparr>,
             \<lparr>start = T + 120000, end_iv = Some (T + 180000)\<rparr>]
   \<and> map_option (duration \<circ> intervals) (db_sessions (timer_scenario T) ''s1'') = Some 120000"
  by (simp add: timer_scenario_def startTimer_def pauseTimer_def resumeTimer_def stopTimer_def
      save_and_set_def new_session_def initialWorld_def set_timer_def upsert_session_def
      close_last_def close_last_open_def duration_def Let_def)

text \<open>
  Claim C2, evaluated on the code at its own input. Started at \<open>t = 0\<close>, the timer has
  \<open>intervalStart = 0\<close>, which the guard of \<open>pauseTimer\<close> (\<open>!timer.intervalStart\<close>) takes for
  a missing value: the pause at 60000 does nothing, the resume at 120000 then finds a
  running timer and does nothing, and the stop at 180000 closes the one interval. The
  persisted session has the single interval \<open>{start: 0, end: 180000}\<close> and a duration of
  180000 ms, not the two intervals and 120000 ms of the claim.
\<close>

theorem C2_scenario_from_zero:
  "map_option intervals (db_sessions (timer_scenario 0) ''s1'')
     = Some [\<lparr>start = 0, end_iv = Some 180000\<rparr>]
   \<and> map_option (duration \<circ> intervals) (db_sessions (timer_scenario 0) ''s1'') = Some 180000
   \<and> pauseTimer 60000 (snd (startTimer ''s1'' ''t1'' 0 initialWorld))
     = (Resolved, snd (startTimer ''s1'' ''t1'' 0 initialWorld))"
  by (simp add: timer_scenario_def startTimer_def pauseTimer_def resumeTimer_def stopTimer_def
      save_and_set_def new_session_def initialWorld_def set_timer_def upsert_session_def
      close_last_def close_last_open_def duration_def Let_def)

text \<open>
  Claim C3, as the code has it. A pause issued when no timer exists or the timer is not
  running, a resume issued when no timer exists or the timer is not paused, and a stop
  issued when no timer exists change nothing, neither the in-memory state nor the
  database; the promise of the command resolves, as it does after a command that took
  effect. No failure is reported.
\<close>

theorem C3_invalid_commands_change_nothing_and_resolve:
  "((\<forall>t. timer (app w) = Some t \<longrightarrow> status t \<noteq> Running) \<longrightarrow> pauseTimer now w = (Resolved, w))
   \<and> ((\<forall>t. timer (app w) = Some t \<longrightarrow> status t \<noteq> Paused) \<longrightarrow> resumeTimer now w = (Resolved, w))
   \<and> (timer (app w) = None \<longrightarrow> stopTimer save now w = (Resolved, w))"
  by (auto simp: pauseTimer_def resumeTimer_def stopTimer_def split: option.splits)

theorem C3_invalid_commands_witness:
  "pauseTimer 5 initialWorld = (Resolved, initialWorld)
   \<and> pauseTimer 70000 pausedWorld = (Resolved, pausedWorld)
   \<and> resumeTimer 5 initialWorld = (Resolved, initialWorld)
   \<and> resumeTimer 70000 runningWorld = (Resolved, runningWorld)
   \<and> stopTimer True 5 initialWorld = (Resolved, initialWorld)"
  using C3_invalid_commands_change_nothing_and_resolve[of initialWorld 5 True]
    C3_invalid_commands_change_nothing_and_resolve[of pausedWorld 70000 True]
    C3_invalid_commands_change_nothing_and_resolve[of runningWorld 70000 True]
  by (simp add: initialWorld_def pausedWorld_def runningWorld_def startTimer_def pauseTimer_def
      save_and_set_def new_session_def set_timer_def upsert_session_def close_last_def Let_def)

text \<open>
  Claim C3 as stated fails in its second half: a pause issued while idle resolves, exactly
  as a pause issued while running does, so the caller is told of no failure.
\<close>

theorem C3_invalid_pause_reports_no_failure:
  "pauseTimer 5 initialWorld = (Resolved, initialWorld)
   \<and> fst (pauseTimer 61000 runningWorld) = Resolved
   \<and> timer (app (snd (pauseTimer 61000 runningWorld))) \<noteq> timer (app runningWorld)"
  by (simp add: initialWorld_def runningWorld_def startTimer_def pauseTimer_def
      save_and_set_def new_session_def set_timer_def upsert_session_def close_last_def Let_def)

subsection \<open>Interrupted-session detection\<close>

lemma hd_sort_key_least:
  assumes "xs \<noteq> []" and "x \<in> set xs"
  shows "f (hd (sort_key f xs)) \<le> f x"
proof -
  have ne: "sort_key f xs \<noteq> []"
    using assms(1) by (metis length_0_conv length_sort)
  then obtain y ys where ys: "sort_key f xs = y # ys"
    by (cases "sort_key f xs") auto
  have "sorted (map f (y # ys))"
    using sorted_sort_key[of f xs] by (simp add: ys)
  moreover have "x \<in> set (y # ys)"
    using assms(2) set_sort[of f xs] by (simp add: ys)
  ultimately show ?thesis
    by (auto simp: ys)
qed

lemma hd_sort_key_mem: "xs \<noteq> [] \<Longrightarrow> hd (sort_key f xs) \<in> set xs"
  by (metis hd_in_set length_0_conv length_sort set_sort)

text \<open>
  What \<open>findInterruptedSession\<close> returns in general: \<open>null\<close> exactly when no session has
  an open interval; otherwise a session with an open interval whose greatest interval
  start, taken over all its intervals, open or closed, is greatest among the sessions
  with an open interval.
\<close>

lemma findInterruptedSession_none:
  "findInterruptedSession ss = None
     \<longleftrightarrow> (\<forall>s \<in> set ss. \<forall>iv \<in> set (intervals s). end_iv iv \<noteq> None)"
  by (auto simp: findInterruptedSession_def Let_def filter_empty_conv list_ex_iff)

lemma findInterruptedSession_some:
  assumes "findInterruptedSession ss = Some s"
  shows "s \<in> set ss \<and> (\<exists>iv \<in> set (intervals s). end_iv iv = None)
         \<and> (\<forall>s' \<in> set ss. (\<exists>iv \<in> set (intervals s'). end_iv iv = None)
               \<longrightarrow> max_start s' \<le> max_start s)"
proof -
  define xs where "xs = filter (\<lambda>s. list_ex (\<lambda>iv. end_iv iv = None) (intervals s)) ss"
  from assms have ne: "xs \<noteq> []" and s: "s = hd (sort_key (\<lambda>s. - max_start s) xs)"
    by (auto simp: findInterruptedSession_def Let_def xs_def split: if_splits)
  have "s \<in> set xs"
    using hd_sort_key_mem[OF ne] s by simp
  moreover have "max_start s' \<le> max_start s" if "s' \<in> set xs" for s'
    using hd_sort_key_least[OF ne that, of "\<lambda>s. - max_start s"] s by simp
  ultimately show ?thesis
    by (auto simp: xs_def list_ex_iff)
qed

text \<open>
  Where in every session an open interval starts no earlier than the session's other
  intervals (the intervals are in chronological order and only the last may be open),
  the session returned is one whose open interval starts latest.
\<close>

lemma max_start_Max:
  "intervals s \<noteq> [] \<Longrightarrow> max_start s = Max (start ` set (intervals s))"
  by (cases "intervals s") (simp_all add: max_start_def Max.set_eq_fold[symmetric])

lemma findInterruptedSession_chronological:
  assumes res: "findInterruptedSession ss = Some s"
    and inv: "\<forall>s' \<in> set ss. \<forall>iv \<in> set (intervals s'). \<forall>iv' \<in> set (intervals s').
                end_iv iv = None \<longrightarrow> start iv' \<le> start iv"
  shows "\<exists>iv \<in> set (intervals s). end_iv iv = None
           \<and> (\<forall>s' \<in> set ss. \<forall>iv' \<in> set (intervals s'). end_iv iv' = None \<longrightarrow> start iv' \<le> start iv)"
proof -
  from findInterruptedSession_some[OF res]
  obtain iv where s: "s \<in> set ss" and iv: "iv \<in> set (intervals s)" "end_iv iv = None"
    and best: "\<forall>s' \<in> set ss. (\<exists>iv \<in> set (intervals s'). end_iv iv = None) \<longrightarrow> max_start s' \<le> max_start s"
    by blast
  have ne: "intervals s \<noteq> []" using iv(1) by auto
  have "max_start s \<le> start iv"
    unfolding max_start_Max[OF ne] using inv s iv by (auto intro!: Max.boundedI)
  moreover have "start iv' \<le> max_start s" if "s' \<in> set ss" "iv' \<in> set (intervals s')" "end_iv iv' = None" for s' iv'
  proof -
    have "intervals s' \<noteq> []" using that(2) by auto
    then have "start iv' \<le> max_start s'"
      using that(2) by (simp add: max_start_Max)
    also have "\<dots> \<le> max_start s" using best that by blast
    finally show ?thesis .
  qed
  ultimately show ?thesis
    using iv by (intro bexI[of _ iv]) (auto intro: order_trans)
qed

text \<open>
  Claim C7, evaluated on the code. With \<open>session_A\<close> and \<open>session_B\<close> both interrupted, the
  open interval of \<open>session_B\<close> starts later (50 against 0), yet \<open>session_A\<close> is returned,
  in either order of the list: the sort key is the greatest start among all intervals of
  a session, and the closed interval of \<open>session_A\<close> starts at 100.
\<close>

theorem C7_latest_open_interval_not_chosen:
  "findInterruptedSession [session_A, session_B] = Some session_A
   \<and> findInterruptedSession [session_B, session_A] = Some session_A
   \<and> findInterruptedSession [] = None"
  by code_simp

section \<open>Properties of the hierarchy resolver\<close>

subsection \<open>When the walk returns\<close>

lemma stops_walk: "stops cats sel cur \<Longrightarrow> \<exists>r. walk cats sel cur = Some r"
proof (induction rule: stops.induct)
  case stops_null
  then show ?case by (simp add: walk.simps)
next
  case (stops_selected c)
  then show ?case by (simp add: walk.simps)
next
  case (stops_parent c)
  then show ?case by (subst walk.simps) simp
qed

lemma walk_stops:
  assumes "walk cats sel cur = Some r"
  shows "stops cats sel cur"
proof (rule walk.raw_induct[where P = "\<lambda>cats sel cur r. stops cats sel cur", OF _ assms])
  fix f :: "Category list \<Rightarrow> string set \<Rightarrow> string option \<Rightarrow> string option option"
    and cats sel cur r
  assume IH: "\<And>cats sel cur r. f cats sel cur = Some r \<Longrightarrow> stops cats sel cur"
    and step: "(case cur of None \<Rightarrow> Some None
                | Some c \<Rightarrow> if c \<in> sel then Some (Some c) else f cats sel (parent_of cats c)) = Some r"
  show "stops cats sel cur"
  proof (cases cur)
    case None
    then show ?thesis by (simp add: stops_null)
  next
    case (Some c)
    show ?thesis
    proof (cases "c \<in> sel")
      case True
      with Some show ?thesis by (simp add: stops_selected)
    next
      case False
      with Some step have "f cats sel (parent_of cats c) = Some r" by simp
      then have "stops cats sel (parent_of cats c)" by (rule IH)
      with False Some show ?thesis by (simp add: stops_parent)
    qed
  qed
qed

lemma assign_tasks_returns:
  "(\<exists>m'. assign_tasks cats sel ts m = Some m')
     \<longleftrightarrow> (\<forall>t \<in> set ts. stops cats sel (Some (id_cat t)))"
proof (induction ts arbitrary: m)
  case Nil
  then show ?case by simp
next
  case (Cons t ts)
  show ?case
  proof (cases "walk cats sel (Some (id_cat t))")
    case None
    then have "\<not> stops cats sel (Some (id_cat t))"
      using stops_walk by fastforce
    with None show ?thesis by simp
  next
    case (Some chosen)
    then have "stops cats sel (Some (id_cat t))"
      by (rule walk_stops)
    with Some Cons.IH show ?thesis by simp
  qed
qed

text \<open>
  \<open>computeEffectiveDisplay\<close> returns exactly when the walk from every task stops.
\<close>

lemma computeEffectiveDisplay_returns_iff:
  "(\<exists>m. computeEffectiveDisplay cats sel = Some m)
     \<longleftrightarrow> (\<forall>t \<in> set cats. type_cat t = Task \<longrightarrow> stops cats sel (Some (id_cat t)))"
  by (auto simp: computeEffectiveDisplay_def assign_tasks_returns)

lemma finite_parent_rel: "finite (parent_rel cats)"
proof -
  have "parent_rel cats \<subseteq> (\<lambda>c. (the (parentId c), id_cat c)) ` set cats"
  proof
    fix x assume "x \<in> parent_rel cats"
    then obtain p c where x: "x = (p, c)" and pc: "parent_of cats c = Some p"
      by (auto simp: parent_rel_def)
    from pc obtain cat where "List.find (\<lambda>k. id_cat k = c) cats = Some cat" "parentId cat = Some p"
      by (auto simp: parent_of_def split: option.splits)
    then have "cat \<in> set cats" "id_cat cat = c" "the (parentId cat) = p"
      by (auto simp: find_Some_iff)
    with x show "x \<in> (\<lambda>c. (the (parentId c), id_cat c)) ` set cats"
      by force
  qed
  then show ?thesis
    by (rule finite_subset) simp
qed

lemma acyclic_stops:
  assumes "acyclic (parent_rel cats)"
  shows "stops cats sel cur"
proof -
  have wf: "wf (parent_rel cats)"
    using finite_parent_rel assms by (rule finite_acyclic_wf)
  have "stops cats sel (Some c)" for c
  proof (induction c rule: wf_induct_rule[OF wf])
    case (1 c)
    show ?case
    proof (cases "c \<in> sel")
      case True
      then show ?thesis by (rule stops_selected)
    next
      case False
      show ?thesis
      proof (cases "parent_of cats c")
        case None
        with False show ?thesis by (simp add: stops_parent stops_null)
      next
        case (Some p)
        then have "(p, c) \<in> parent_rel cats" by (simp add: parent_rel_def)
        then have "stops cats sel (Some p)" by (rule 1)
        with False Some show ?thesis by (simp add: stops_parent)
      qed
    qed
  qed
  then show ?thesis
    by (cases cur) (auto intro: stops_null)
qed

text \<open>
  Claim C6, as the code has it. On every category list whose parent links are acyclic the
  upward walk terminates for every task, so \<open>computeEffectiveDisplay\<close> returns a map. The
  loop has no depth bound and no visited set.
\<close>

theorem C6_terminates_on_acyclic_categories:
  assumes "acyclic (parent_rel categories)"
  shows "\<exists>m. computeEffectiveDisplay categories selectedIds = Some m"
  using acyclic_stops[OF assms] by (simp add: computeEffectiveDisplay_returns_iff)

lemma parent_rel_tree: "parent_rel tree_categories = {(''f'', ''t'')}"
  by (auto simp: parent_rel_def parent_of_def tree_categories_def category_def split: if_splits)

theorem C6_terminates_on_acyclic_categories_witness:
  "acyclic (parent_rel tree_categories)
   \<and> (\<exists>m. computeEffectiveDisplay tree_categories {''f''} = Some m)"
proof -
  have a: "acyclic (parent_rel tree_categories)"
    by (simp add: parent_rel_tree acyclic_insert wf_acyclic)
  from C6_terminates_on_acyclic_categories[OF a] a show ?thesis
    by simp
qed

lemma cyclic_never_stops:
  "stops cyclic_categories {} cur \<Longrightarrow> cur \<noteq> Some ''f'' \<and> cur \<noteq> Some ''g'' \<and> cur \<noteq> Some ''t''"
proof (induction rule: stops.induct)
  case stops_null
  then show ?case by simp
next
  case (stops_selected c)
  then show ?case by simp
next
  case (stops_parent c)
  then show ?case
    by (auto simp: parent_of_def cyclic_categories_def category_def)
qed

text \<open>
  Claim C6 as stated fails: with the folders \<open>f\<close> and \<open>g\<close> each other's parent and nothing
  selected, the walk from task \<open>t\<close> never leaves the cycle, and
  \<open>computeEffectiveDisplay\<close> does not return.
\<close>

theorem C6_cycle_does_not_terminate:
  "computeEffectiveDisplay cyclic_categories {} = None"
proof (cases "computeEffectiveDisplay cyclic_categories {}")
  case None
  then show ?thesis .
next
  case (Some m)
  then have "\<forall>t \<in> set cyclic_categories.
      type_cat t = Task \<longrightarrow> stops cyclic_categories {} (Some (id_cat t))"
    using computeEffectiveDisplay_returns_iff[of cyclic_categories "{}"] by blast
  moreover have "category ''t'' Task (Some ''f'') \<in> set cyclic_categories"
    by (simp add: cyclic_categories_def)
  moreover have "type_cat (category ''t'' Task (Some ''f'')) = Task"
    and "id_cat (category ''t'' Task (Some ''f'')) = ''t''"
    by (simp_all add: category_def)
  ultimately have "stops cyclic_categories {} (Some ''t'')"
    by metis
  with cyclic_never_stops show ?thesis
    by blast
qed

subsection \<open>What the walk returns\<close>

text \<open>Where ids are unique, the parent the walk moves to is the category's own \<open>parentId\<close>.\<close>

lemma parent_of_distinct:
  "distinct (map id_cat cats) \<Longrightarrow> t \<in> set cats \<Longrightarrow> parent_of cats (id_cat t) = parentId t"
proof (induction cats)
  case Nil
  then show ?case by simp
next
  case (Cons c cats)
  show ?case
  proof (cases "id_cat c = id_cat t")
    case True
    with Cons.prems have "c = t" by force
    then show ?thesis by (simp add: parent_of_def)
  next
    case False
    with Cons show ?thesis by (auto simp: parent_of_def)
  qed
qed

lemma first_selected_self: "c \<in> sel \<Longrightarrow> first_selected cats sel c d \<longleftrightarrow> d = c"
  unfolding first_selected_def
  apply (rule iffI)
   apply (metis ancestor.simps(1) not_gr_zero option.inject)
  by (rule exI[of _ 0]) simp

lemma first_selected_step:
  "c \<notin> sel \<Longrightarrow> first_selected cats sel c d \<longleftrightarrow> (\<exists>p. parent_of cats c = Some p \<and> first_selected cats sel p d)"
proof
  assume c: "c \<notin> sel" and "first_selected cats sel c d"
  then obtain n where n: "ancestor cats n c = Some d" "d \<in> sel"
     "\<forall>k<n. \<forall>a. ancestor cats k c = Some a \<longrightarrow> a \<notin> sel"
    by (auto simp: first_selected_def)
  with c obtain n' where n': "n = Suc n'" by (cases n) auto
  with n(1) obtain p where p: "parent_of cats c = Some p" "ancestor cats n' p = Some d"
    by (auto split: option.splits)
  have "\<forall>k<n'. \<forall>a. ancestor cats k p = Some a \<longrightarrow> a \<notin> sel"
  proof (intro allI impI)
    fix k a assume "k < n'" "ancestor cats k p = Some a"
    then have "Suc k < n" "ancestor cats (Suc k) c = Some a" using n' p by auto
    with n(3) show "a \<notin> sel" by blast
  qed
  with p n(2) show "\<exists>p. parent_of cats c = Some p \<and> first_selected cats sel p d"
    by (auto simp: first_selected_def)
next
  assume c: "c \<notin> sel" and "\<exists>p. parent_of cats c = Some p \<and> first_selected cats sel p d"
  then obtain p n where p: "parent_of cats c = Some p" and n: "ancestor cats n p = Some d" "d \<in> sel"
     "\<forall>k<n. \<forall>a. ancestor cats k p = Some a \<longrightarrow> a \<notin> sel"
    by (auto simp: first_selected_def)
  have "\<forall>k<Suc n. \<forall>a. ancestor cats k c = Some a \<longrightarrow> a \<notin> sel"
  proof (intro allI impI)
    fix k a assume k: "k < Suc n" "ancestor cats k c = Some a"
    show "a \<notin> sel"
    proof (cases k)
      case 0
      with k c show ?thesis by simp
    next
      case (Suc k')
      with k p n(3) show ?thesis by auto
    qed
  qed
  moreover have "ancestor cats (Suc n) c = Some d" using p n(1) by simp
  ultimately show "first_selected cats sel c d"
    unfolding first_selected_def using n(2) by blast
qed

lemma none_selected_step:
  "none_selected cats sel c \<longleftrightarrow> c \<notin> sel \<and> (\<forall>p. parent_of cats c = Some p \<longrightarrow> none_selected cats sel p)"
proof
  assume ns: "none_selected cats sel c"
  then have "c \<notin> sel" unfolding none_selected_def by (metis ancestor.simps(1))
  moreover have "none_selected cats sel p" if "parent_of cats c = Some p" for p
    unfolding none_selected_def
  proof (intro allI impI)
    fix n a assume "ancestor cats n p = Some a"
    then have "ancestor cats (Suc n) c = Some a" using that by simp
    with ns show "a \<notin> sel" unfolding none_selected_def by blast
  qed
  ultimately show "c \<notin> sel \<and> (\<forall>p. parent_of cats c = Some p \<longrightarrow> none_selected cats sel p)" by blast
next
  assume h: "c \<notin> sel \<and> (\<forall>p. parent_of cats c = Some p \<longrightarrow> none_selected cats sel p)"
  show "none_selected cats sel c"
    unfolding none_selected_def
  proof (intro allI impI)
    fix n a assume a: "ancestor cats n c = Some a"
    show "a \<notin> sel"
    proof (cases n)
      case 0
      with a h show ?thesis by simp
    next
      case (Suc n')
      with a h show ?thesis by (auto simp: none_selected_def split: option.splits)
    qed
  qed
qed

lemma walk_result:
  "stops cats sel cur \<Longrightarrow>
   (case cur of None \<Rightarrow> walk cats sel cur = Some None
    | Some c \<Rightarrow> (\<forall>d. walk cats sel cur = Some (Some d) \<longleftrightarrow> first_selected cats sel c d)
              \<and> (walk cats sel cur = Some None \<longleftrightarrow> none_selected cats sel c))"
proof (induction rule: stops.induct)
  case stops_null
  then show ?case by (simp add: walk.simps)
next
  case (stops_selected c)
  then show ?case
    using none_selected_step[of cats sel c]
    by (auto simp: walk.simps[of cats sel "Some c"] first_selected_self)
next
  case (stops_parent c)
  show ?case
  proof (cases "parent_of cats c")
    case None
    with stops_parent(1) show ?thesis
      using none_selected_step[of cats sel c] first_selected_step[of c sel cats]
      by (simp add: walk.simps[of cats sel "Some c"] walk.simps[of cats sel None])
  next
    case (Some p)
    with stops_parent show ?thesis
      using none_selected_step[of cats sel c] first_selected_step[of c sel cats]
      by (simp add: walk.simps[of cats sel "Some c"])
  qed
qed

lemma assign_tasks_map:
  "assign_tasks cats sel ts m = Some m' \<Longrightarrow>
   m' x = (case (if x \<in> id_cat ` set ts then walk cats sel (Some x) else Some None) of
             Some (Some c) \<Rightarrow> if c = [] then m x else Some c
           | _ \<Rightarrow> m x)"
proof (induction ts arbitrary: m)
  case Nil
  then show ?case by simp
next
  case (Cons t ts)
  from Cons.prems obtain chosen where w: "walk cats sel (Some (id_cat t)) = Some chosen"
    by (auto split: option.splits)
  define m1 where "m1 = (case chosen of None \<Rightarrow> m
                          | Some c \<Rightarrow> if c = [] then m else m(id_cat t \<mapsto> c))"
  from Cons.prems w have "assign_tasks cats sel ts m1 = Some m'"
    by (simp add: m1_def)
  from Cons.IH[OF this]
  have IH: "m' x = (case (if x \<in> id_cat ` set ts then walk cats sel (Some x) else Some None) of
             Some (Some c) \<Rightarrow> if c = [] then m1 x else Some c
           | _ \<Rightarrow> m1 x)" .
  show ?case
  proof (cases "x = id_cat t")
    case True
    with IH w show ?thesis
      by (auto simp: m1_def split: option.splits)
  next
    case False
    with IH show ?thesis
      by (auto simp: m1_def split: option.splits)
  qed
qed

text \<open>
  With respect to selected ids other than the empty string, \<open>computeEffectiveDisplay\<close>
  does what claim C4 says: a task is mapped to the first selected id on its chain of
  ancestors, itself first, and is absent from the map exactly when the chain holds no
  selected id.
\<close>

lemma computeEffectiveDisplay_nonempty_ids:
  assumes m: "computeEffectiveDisplay cats sel = Some m"
    and t: "t \<in> set cats" "type_cat t = Task"
    and ne: "[] \<notin> sel"
  shows "m (id_cat t) = Some d \<longleftrightarrow> first_selected cats sel (id_cat t) d"
    and "m (id_cat t) = None \<longleftrightarrow> none_selected cats sel (id_cat t)"
    and "id_cat t \<in> sel \<Longrightarrow> m (id_cat t) = Some (id_cat t)"
proof -
  let ?c = "id_cat t"
  have st: "stops cats sel (Some ?c)"
    using m t computeEffectiveDisplay_returns_iff[of cats sel] by blast
  from walk_result[OF st]
  have w1: "\<And>d. walk cats sel (Some ?c) = Some (Some d) \<longleftrightarrow> first_selected cats sel ?c d"
    and w2: "walk cats sel (Some ?c) = Some None \<longleftrightarrow> none_selected cats sel ?c"
    by simp_all
  from stops_walk[OF st] obtain r where r: "walk cats sel (Some ?c) = Some r"
    by blast
  have mem: "?c \<in> id_cat ` set (filter (\<lambda>c. type_cat c = Task) cats)"
    using t by auto
  have mc: "m ?c = (case r of Some c \<Rightarrow> if c = [] then None else Some c | None \<Rightarrow> None)"
    using assign_tasks_map[OF m[unfolded computeEffectiveDisplay_def], of ?c] mem r
    by (simp split: option.splits)
  have fs: "first_selected cats sel ?c d' \<longleftrightarrow> r = Some d'" for d'
    using w1[of d'] r by simp
  have ns: "none_selected cats sel ?c \<longleftrightarrow> r = None"
    using w2 r by simp
  have sel_ne: "d' \<noteq> []" if "r = Some d'" for d'
    using that ne fs[of d'] by (auto simp: first_selected_def)
  show "m ?c = Some d \<longleftrightarrow> first_selected cats sel ?c d"
    unfolding fs mc using sel_ne by (cases r) auto
  show "m ?c = None \<longleftrightarrow> none_selected cats sel ?c"
    unfolding ns mc using sel_ne by (cases r) auto
  show "m ?c = Some ?c" if "?c \<in> sel"
  proof -
    from that have "first_selected cats sel ?c ?c"
      by (simp add: first_selected_self)
    then have "r = Some ?c" by (simp add: fs)
    with mc sel_ne show ?thesis by auto
  qed
qed

text \<open>
  Claim C4, evaluated on the code at a selected task whose id is the empty string. The
  walk finds the task itself selected and sets \<open>chosen\<close> to the empty string; the test
  \<open>if (chosen)\<close> takes the empty string for no result, and the task is left out of the
  map. The same task under the id \<open>t\<close> is mapped to itself.
\<close>

theorem C4_selected_task_with_empty_id_is_left_out:
  "map_option (\<lambda>m. m '''') (computeEffectiveDisplay [category '''' Task None] {''''}) = Some None
   \<and> map_option (\<lambda>m. m ''t'') (computeEffectiveDisplay [category ''t'' Task None] {''t''})
       = Some (Some ''t'')"
  by code_simp

end
